theory Spec2Isabelle
  imports Main
begin


section \<open>Data model\<close>

text \<open>
  An \<open>error\<close> is the text of a Go error value, a panic value is the text the runtime would
  print for it. Strings are byte strings, as in Go.
\<close>

type_synonym error = string

text \<open>
  The goroutines of the process: the main goroutine, the five closures handed to
  \<open>g.Go\<close> (the webview, the two chat integrations, the local server, the event
  listener, the shutdown closure) and \<open>scheduler.Start\<close>, launched with a plain
  \<open>go\<close> statement.
\<close>

datatype tid = Main | Gui | Discord | Telegram | Listen | Events | Shutdown | Sched

text \<open>
  The call sites of \<open>main.go\<close> whose callee lives outside the file. Each may return
  an error (where its Go signature has one) or panic.
\<close>

datatype site =
    CfgLoad | NewLogger | DpiAware | NewListener | NewManager | NewScheduler
  | SchedStart | ServerNew
  | GetDisplayScale | WebviewNew | WebviewSetSize | WebviewRun | WebviewDestroy
  | DiscordNew | DiscordRegister | DiscordStart
  | TelegramNew | TelegramRegister | TelegramStart
  | SrvListen | EvListen | StopAll | SchedStop | SrvStop

text \<open>
  What a goroutine does, one atomic step at a time. The trace of a run is the list of the
  actions executed, each with the goroutine that executed it.
\<close>

datatype action =
    Call site                         \<comment> \<open>a call to a collaborator, recorded when it returns\<close>
  | ShowDialog string string          \<comment> \<open>\<open>utils.ShowDialog(title, message)\<close>\<close>
  | LogFatalf string                  \<comment> \<open>the output of \<open>log.Fatalf\<close>; the exit follows\<close>
  | LogPrintf string                  \<comment> \<open>\<open>log.Printf\<close> of the standard logger\<close>
  | LoggerError string "error option" \<comment> \<open>\<open>logger.Error(msg, slog.Any("error", err))\<close>\<close>
  | LoggerInfo string                 \<comment> \<open>\<open>logger.Info(msg)\<close>\<close>
  | FlushLog                          \<comment> \<open>\<open>sloggger.FlushLog()\<close>\<close>
  | OpenFile string                   \<comment> \<open>\<open>os.Open(path)\<close> in \<open>readConfigFile\<close>\<close>
  | HttpGet string                    \<comment> \<open>\<open>http.Get(url)\<close>\<close>
  | Cancel                            \<comment> \<open>\<open>cancel()\<close>\<close>
  | CtxDone                           \<comment> \<open>\<open><-ctx.Done()\<close> has received\<close>
  | GoGroup tid                       \<comment> \<open>\<open>g.Go(f)\<close>\<close>
  | GoPlain tid                       \<comment> \<open>\<open>go f()\<close>\<close>
  | Return "error option"             \<comment> \<open>a closure of the group returns\<close>
  | Wait                              \<comment> \<open>\<open>g.Wait()\<close> has returned\<close>
  | Panicked string                   \<comment> \<open>a panic is raised\<close>
  | Die                               \<comment> \<open>an unrecovered panic ends the process\<close>
  | ExitProc nat                      \<comment> \<open>the process exits with this code\<close>

text \<open>
  The directory tree found at the path \<open>config\<close>. A file carries the error of
  \<open>os.Open\<close> or else the lines a \<open>bufio.Scanner\<close> yields for it; a directory carries the
  error of reading its entries, if any, and its entries by name in lexical order, which is
  the order \<open>filepath.Walk\<close> visits them in; \<open>NoStat\<close> is a path whose \<open>Lstat\<close> fails.
\<close>

datatype fsnode =
    File "error + string list"
  | Dir "error option" "(string \<times> fsnode) list"
  | NoStat error

text \<open>
  Everything the run depends on and \<open>main.go\<close> does not decide: what each collaborator
  call returns, whether it panics, the loaded configuration and the file system.
\<close>

record env =
  ret_err :: "site \<Rightarrow> error option"     \<comment> \<open>the error a call returns, \<open>None\<close> for nil\<close>
  faults :: "site \<Rightarrow> string option"      \<comment> \<open>the panic value, when the call panics\<close>
  stack :: "site \<Rightarrow> string"              \<comment> \<open>\<open>debug.Stack()\<close> for a panic raised there\<close>
  webview_nil :: bool                   \<comment> \<open>\<open>gowebview.New\<close> returned a nil \<open>WebView\<close>\<close>
  discord_enabled :: bool               \<comment> \<open>\<open>config.Koolo.Discord.Enabled\<close>\<close>
  telegram_enabled :: bool              \<comment> \<open>\<open>config.Koolo.Telegram.Enabled\<close>\<close>
  fs_root :: fsnode                     \<comment> \<open>what is at the path \<open>config\<close>\<close>
  path_sep :: string                    \<comment> \<open>\<open>filepath.Separator\<close>\<close>
  http_err :: "string \<Rightarrow> error option"  \<comment> \<open>the error of \<open>http.Get\<close> for a URL\<close>

section \<open>The configuration scan\<close>

definition newline :: string where
  "newline = [CHR 0x0A]"

definition is_alnum :: "char \<Rightarrow> bool" where
  "is_alnum c = (let n = (of_char c :: nat) in
     (48 \<le> n \<and> n \<le> 57) \<or> (65 \<le> n \<and> n \<le> 90) \<or> (97 \<le> n \<and> n \<le> 122))"

text \<open>\<open>url.QueryEscape\<close>: letters, digits and \<open>-_.~\<close> stay, a space becomes \<open>+\<close>, every
  other byte becomes \<open>%XX\<close> in upper-case hexadecimal.\<close>

definition hex_digit :: "nat \<Rightarrow> char" where
  "hex_digit n = ''0123456789ABCDEF'' ! n"

definition should_escape :: "char \<Rightarrow> bool" where
  "should_escape c = (\<not> (is_alnum c \<or> c \<in> set ''-_.~''))"

definition escape_byte :: "char \<Rightarrow> string" where
  "escape_byte c = (let n = (of_char c :: nat) in
     [CHR ''%'', hex_digit (n div 16), hex_digit (n mod 16)])"

definition query_escape :: "string \<Rightarrow> string" where
  "query_escape s = concat (map (\<lambda>c.
     if c = CHR '' '' then ''+'' else if should_escape c then escape_byte c else [c]) s)"

text \<open>\<open>strings.ToLower\<close> on the bytes of an ASCII name; bytes outside \<open>A-Z\<close> are kept.\<close>

definition to_lower_char :: "char \<Rightarrow> char" where
  "to_lower_char c = (let n = (of_char c :: nat) in
     if 65 \<le> n \<and> n \<le> 90 then char_of (n + 32) else c)"

definition to_lower :: "string \<Rightarrow> string" where
  "to_lower s = map to_lower_char s"

text \<open>\<open>strings.Join(lines, "\n")\<close>.\<close>

fun join_lines :: "string list \<Rightarrow> string" where
  "join_lines [] = []"
| "join_lines [l] = l"
| "join_lines (l # ls) = l @ newline @ join_lines ls"

text \<open>\<open>sendMessage\<close>: the message is escaped into the query of a fixed URL and fetched; a
  failed request is logged and otherwise ignored.\<close>

definition telegram_url :: "string \<Rightarrow> string" where
  "telegram_url text =
     ''https://api.telegram.org/bot'' @ '':'' @ ''/sendMessage?chat_id='' @ '''' @ ''&text=''
       @ query_escape text"

definition sendMessage :: "env \<Rightarrow> string \<Rightarrow> action list" where
  "sendMessage env text = (let url = telegram_url text in
     HttpGet url # (case http_err env url of
        Some e \<Rightarrow> [LogPrintf (''Error sending message: '' @ e)]
      | None \<Rightarrow> []))"

text \<open>The loop of \<open>readConfigFile\<close>: \<open>for i := 0; i < 5 && scanner.Scan(); i++\<close>.\<close>

function scan_loop :: "nat \<Rightarrow> string list \<Rightarrow> string list \<Rightarrow> string list" where
  "scan_loop i src lines =
     (if i < 5 then (case src of [] \<Rightarrow> lines | l # rest \<Rightarrow> scan_loop (Suc i) rest (lines @ [l]))
      else lines)"
  by pat_completeness auto
termination
  by (relation "measure (\<lambda>(i, src, lines). 5 - i)") auto

definition readConfigFile :: "string \<Rightarrow> error + string list \<Rightarrow> action list \<times> string" where
  "readConfigFile filePath content = (case content of
      Inl e \<Rightarrow> ([OpenFile filePath, LogPrintf (''Error opening file '' @ filePath @ '': '' @ e)], [])
    | Inr src \<Rightarrow> ([OpenFile filePath], join_lines (scan_loop 0 src [])))"

text \<open>
  The function literal handed to \<open>filepath.Walk\<close>, called with the path, the entry's name
  and node (for \<open>info\<close>) and the error of reaching it. It returns what it did and whether it
  answered \<open>filepath.SkipDir\<close> rather than nil.
\<close>

definition is_dir :: "fsnode \<Rightarrow> bool" where
  "is_dir n = (case n of Dir _ _ \<Rightarrow> True | _ \<Rightarrow> False)"

definition visit :: "env \<Rightarrow> string \<Rightarrow> string \<Rightarrow> fsnode \<Rightarrow> error option \<Rightarrow> action list \<times> bool" where
  "visit env path name node err = (case err of
      Some e \<Rightarrow> ([LogPrintf (''Error accessing path '' @ path @ '': '' @ e)], False)
    | None \<Rightarrow>
        if is_dir node \<and> name = ''template'' then ([], True)
        else if \<not> is_dir node \<and> to_lower name = ''config.yaml'' then
          (case node of
             File content \<Rightarrow>
               (let (acts, message) = readConfigFile path content in
                if message \<noteq> [] then
                  (acts @ sendMessage env (''Config from '' @ path @ '':'' @ newline @ newline @ message), False)
                else (acts, False))
           | _ \<Rightarrow> ([], False))
        else ([], False))"

text \<open>
  \<open>filepath.Walk\<close> of the standard library: the function is called for the node itself,
  with the error of \<open>Lstat\<close> or of reading the directory if there is one; a directory whose
  call answered nil without such an error is then walked entry by entry. The function
  above never answers an error other than \<open>SkipDir\<close>, so the walk is never cut short and
  returns nil.
\<close>

fun walk :: "env \<Rightarrow> string \<Rightarrow> string \<Rightarrow> fsnode \<Rightarrow> action list" where
  "walk env path name (NoStat e) = fst (visit env path name (NoStat e) (Some e))"
| "walk env path name (File c) = fst (visit env path name (File c) None)"
| "walk env path name (Dir rerr entries) =
     (let (acts, skip) = visit env path name (Dir rerr entries) rerr in
      if rerr \<noteq> None \<or> skip then acts
      else acts @ concat (map (\<lambda>(n, c). walk env (path @ path_sep env @ n) n c) entries))"

definition findConfigFiles :: "env \<Rightarrow> action list" where
  "findConfigFiles env = walk env ''config'' ''config'' (fs_root env)"

section \<open>The goroutines\<close>

text \<open>
  A call made by a goroutine started with \<open>go\<close> or \<open>g.Go\<close>: when the callee panics, the
  deferred calls of the closure run and the process dies, since nothing there recovers.
\<close>

definition gcall :: "env \<Rightarrow> site \<Rightarrow> action list \<Rightarrow> action list \<Rightarrow> action list" where
  "gcall env c deferred k = Call c # (case faults env c of
      Some pv \<Rightarrow> Panicked pv # deferred @ [Die]
    | None \<Rightarrow> k)"

definition nil_deref :: string where
  "nil_deref = ''runtime error: invalid memory address or nil pointer dereference''"

text \<open>The closure of lines 136-160. \<open>cancel\<close> is deferred first; \<open>w.Destroy\<close> is deferred
  only after \<open>SetSize\<close>. A method call on a nil \<open>WebView\<close> panics.\<close>

definition deferred_destroy :: "env \<Rightarrow> action list" where
  "deferred_destroy env = Call WebviewDestroy # (case faults env WebviewDestroy of
      Some pv \<Rightarrow> [Panicked pv]
    | None \<Rightarrow> [])"

definition gui_task :: "env \<Rightarrow> action list" where
  "gui_task env =
     gcall env GetDisplayScale [Cancel]
    (gcall env WebviewNew [Cancel]
      (case ret_err env WebviewNew of
         Some e \<Rightarrow>
           if webview_nil env then [Panicked nil_deref, Cancel, Die]
           else gcall env WebviewDestroy [Cancel]
                  [Cancel, Return (Some (''error creating webview: '' @ e))]
       | None \<Rightarrow>
           if webview_nil env then [Panicked nil_deref, Cancel, Die]
           else gcall env WebviewSetSize [Cancel]
                 (gcall env WebviewRun (deferred_destroy env @ [Cancel])
                   (gcall env WebviewDestroy [Cancel] [Cancel, Return None]))))"

text \<open>The closures of lines 171-173 and 185-187.\<close>

definition discord_task :: "env \<Rightarrow> action list" where
  "discord_task env = gcall env DiscordStart [] [Return (ret_err env DiscordStart)]"

definition telegram_task :: "env \<Rightarrow> action list" where
  "telegram_task env = gcall env TelegramStart [] [Return (ret_err env TelegramStart)]"

text \<open>The closures of lines 190-193 and 195-198: the result is computed, then the
  deferred \<open>cancel\<close> runs, then the closure returns.\<close>

definition listen_task :: "env \<Rightarrow> action list" where
  "listen_task env = gcall env SrvListen [Cancel] [Cancel, Return (ret_err env SrvListen)]"

definition events_task :: "env \<Rightarrow> action list" where
  "events_task env = gcall env EvListen [Cancel] [Cancel, Return (ret_err env EvListen)]"

text \<open>The closure of lines 200-212.\<close>

definition shutdown_task :: "env \<Rightarrow> action list" where
  "shutdown_task env =
     CtxDone # LoggerInfo ''Koolo shutting down...'' # Cancel #
     gcall env StopAll []
    (gcall env SchedStop []
    (gcall env SrvStop []
      (case ret_err env SrvStop of
         Some e \<Rightarrow> [LoggerError ''error stopping local server'' (Some e), Return (Some e)]
       | None \<Rightarrow> [Return None])))"

text \<open>\<open>go scheduler.Start()\<close>: whatever the call returns is dropped.\<close>

definition sched_task :: "env \<Rightarrow> action list" where
  "sched_task env = gcall env SchedStart [] []"

section \<open>The main goroutine\<close>

text \<open>The deferred function of lines 108-115, for a recovered panic value, and what
  remains of \<open>main\<close> after it: the deferred \<open>FlushLog\<close> of line 106 and the return.\<close>

definition report :: "env \<Rightarrow> site \<Rightarrow> string \<Rightarrow> string" where
  "report env c pv =
     ''fatal error detected, Koolo will close with the following error: '' @ pv
       @ newline @ '' Stacktrace: '' @ stack env c"

definition recover_handler :: "env \<Rightarrow> site \<Rightarrow> string \<Rightarrow> action list" where
  "recover_handler env c pv =
     [LoggerError (report env c pv) None,
      FlushLog,
      ShowDialog ''Koolo error :(''
        (''Koolo will close due to an expected error, please check the latest log file for more info!''
           @ newline @ '' '' @ report env c pv)]"

text \<open>A return of \<open>main\<close> after line 121 runs the deferred calls in reverse order:
  \<open>cancel\<close>, the recovery function (which finds no panic) and \<open>FlushLog\<close>; the process
  then exits with code 0.\<close>

definition return_main :: "action list" where
  "return_main = [Cancel, FlushLog, ExitProc 0]"

text \<open>A call on the main goroutine after line 121: a panic runs the deferred \<open>cancel\<close>,
  is recovered by the deferred function, and \<open>main\<close> returns.\<close>

definition mcall :: "env \<Rightarrow> site \<Rightarrow> action list \<Rightarrow> action list" where
  "mcall env c k = Call c # (case faults env c of
      Some pv \<Rightarrow> Panicked pv # Cancel # recover_handler env c pv @ [FlushLog, ExitProc 0]
    | None \<Rightarrow> k)"

text \<open>Lines 190-212: the three closures registered last.\<close>

definition main_tasks :: "action list" where
  "main_tasks = [GoGroup Listen, GoGroup Events, GoGroup Shutdown]"

text \<open>Lines 176-188.\<close>

definition main_telegram :: "env \<Rightarrow> action list" where
  "main_telegram env =
     (if telegram_enabled env then
        mcall env TelegramNew
          (case ret_err env TelegramNew of
             Some e \<Rightarrow> LoggerError ''Telegram could not been initialized'' (Some e) # return_main
           | None \<Rightarrow> mcall env TelegramRegister (GoGroup Telegram # main_tasks))
      else main_tasks)"

text \<open>Lines 162-174.\<close>

definition main_discord :: "env \<Rightarrow> action list" where
  "main_discord env =
     (if discord_enabled env then
        mcall env DiscordNew
          (case ret_err env DiscordNew of
             Some e \<Rightarrow> LoggerError ''Discord could not been initialized'' (Some e) # return_main
           | None \<Rightarrow> mcall env DiscordRegister (GoGroup Discord # main_telegram env))
      else main_telegram env)"

text \<open>Lines 125-160. \<open>log.Fatalf\<close> prints and calls \<open>os.Exit(1)\<close>, which runs no deferred
  call.\<close>

definition main_setup :: "env \<Rightarrow> action list" where
  "main_setup env =
     mcall env DpiAware
    (mcall env NewListener
    (mcall env NewManager
    (mcall env NewScheduler
    (GoPlain Sched #
     mcall env ServerNew
      (case ret_err env ServerNew of
         Some e \<Rightarrow> [LogFatalf (''Error starting local server: '' @ e), ExitProc 1]
       | None \<Rightarrow> GoGroup Gui # main_discord env)))))"

text \<open>Lines 95-118. Nothing is deferred yet when \<open>config.Load\<close> and \<open>NewLogger\<close> run, so
  a panic there ends the process.\<close>

definition main_body :: "env \<Rightarrow> action list" where
  "main_body env =
     Call CfgLoad # (case faults env CfgLoad of
        Some pv \<Rightarrow> [Panicked pv, Die]
      | None \<Rightarrow> (case ret_err env CfgLoad of
          Some e \<Rightarrow> [ShowDialog ''Error loading configuration'' e,
                     LogFatalf (''Error loading configuration: '' @ e), ExitProc 1]
        | None \<Rightarrow>
     Call NewLogger # (case faults env NewLogger of
        Some pv \<Rightarrow> [Panicked pv, Die]
      | None \<Rightarrow> (case ret_err env NewLogger of
          Some e \<Rightarrow> [LogFatalf (''Error starting logger: '' @ e), ExitProc 1]
        | None \<Rightarrow> findConfigFiles env @ main_setup env))))"

text \<open>Lines 214-221, given what \<open>g.Wait\<close> returned (\<open>None\<close> while it has not).\<close>

definition after_wait :: "error option option \<Rightarrow> action list" where
  "after_wait w = (case w of
      None \<Rightarrow> []
    | Some (Some e) \<Rightarrow> Cancel # LoggerError ''Error running Koolo'' (Some e) # return_main
    | Some None \<Rightarrow> FlushLog # return_main)"

text \<open>The code of each goroutine.\<close>

definition prog :: "env \<Rightarrow> error option option \<Rightarrow> tid \<Rightarrow> action list" where
  "prog env w t = (case t of
      Main \<Rightarrow> main_body env @ Wait # after_wait w
    | Gui \<Rightarrow> gui_task env
    | Discord \<Rightarrow> discord_task env
    | Telegram \<Rightarrow> telegram_task env
    | Listen \<Rightarrow> listen_task env
    | Events \<Rightarrow> events_task env
    | Shutdown \<Rightarrow> shutdown_task env
    | Sched \<Rightarrow> sched_task env)"

section \<open>Runs\<close>

datatype status = Running | Exited nat | Crashed

text \<open>
  The state of a run. \<open>cancelled\<close> is the context the closures see (the one of the
  group, derived from the one \<open>cancel\<close> cancels); \<open>gerr\<close>, \<open>group\<close> and \<open>returned\<close> are
  the state of the \<open>errgroup.Group\<close>: the first error, the closures handed to it and those
  that have returned; \<open>wres\<close> is what \<open>g.Wait\<close> returned, once it has.
\<close>

record state =
  pc :: "tid \<Rightarrow> nat"
  started :: "tid \<Rightarrow> bool"
  cancelled :: bool
  gerr :: "error option"
  grp :: "tid list"
  returned :: "tid list"
  wres :: "error option option"
  trace :: "(tid \<times> action) list"
  status :: status

definition init :: state where
  "init = \<lparr>pc = (\<lambda>_. 0), started = (\<lambda>t. t = Main), cancelled = False, gerr = None,
           grp = [], returned = [], wres = None, trace = [], status = Running\<rparr>"

text \<open>
  One step of goroutine \<open>t\<close>: its next action, when the process is alive, the goroutine
  has been started and has not finished, and the action can proceed. Receiving from
  \<open>ctx.Done()\<close> waits for the cancellation; \<open>g.Wait\<close> waits until every closure handed to
  the group has returned, then cancels the group's context and returns the first error;
  a closure returning the first non-nil error records it and cancels the context.
\<close>

definition effect :: "tid \<Rightarrow> action \<Rightarrow> state \<Rightarrow> state" where
  "effect t a s = (case a of
      Cancel \<Rightarrow> s\<lparr>cancelled := True\<rparr>
    | GoGroup u \<Rightarrow> s\<lparr>started := (started s)(u := True), grp := grp s @ [u]\<rparr>
    | GoPlain u \<Rightarrow> s\<lparr>started := (started s)(u := True)\<rparr>
    | Return r \<Rightarrow> s\<lparr>returned := returned s @ [t],
                     gerr := (if gerr s = None then r else gerr s),
                     cancelled := (cancelled s \<or> (gerr s = None \<and> r \<noteq> None))\<rparr>
    | Wait \<Rightarrow> s\<lparr>wres := Some (gerr s), cancelled := True\<rparr>
    | Die \<Rightarrow> s\<lparr>status := Crashed\<rparr>
    | ExitProc n \<Rightarrow> s\<lparr>status := Exited n\<rparr>
    | _ \<Rightarrow> s)"

definition ready :: "action \<Rightarrow> state \<Rightarrow> bool" where
  "ready a s = (case a of
      CtxDone \<Rightarrow> cancelled s
    | Wait \<Rightarrow> list_all (\<lambda>u. u \<in> set (returned s)) (grp s)
    | _ \<Rightarrow> True)"

definition can_step :: "env \<Rightarrow> tid \<Rightarrow> state \<Rightarrow> bool" where
  "can_step env t s =
     (status s = Running \<and> started s t \<and> pc s t < length (prog env (wres s) t)
      \<and> ready (prog env (wres s) t ! pc s t) s)"

definition step :: "env \<Rightarrow> tid \<Rightarrow> state \<Rightarrow> state" where
  "step env t s =
     (if can_step env t s then
        (let a = prog env (wres s) t ! pc s t in
         effect t a (s\<lparr>pc := (pc s)(t := Suc (pc s t)), trace := trace s @ [(t, a)]\<rparr>))
      else s)"

text \<open>A run under a schedule: the goroutine named next takes a step if it can.\<close>

fun exec :: "env \<Rightarrow> tid list \<Rightarrow> state \<Rightarrow> state" where
  "exec env [] s = s"
| "exec env (t # ts) s = exec env ts (step env t s)"

definition run :: "env \<Rightarrow> tid list \<Rightarrow> state" where
  "run env sched = exec env sched init"

text \<open>What one goroutine did in a trace, in order.\<close>

definition events_of :: "tid \<Rightarrow> (tid \<times> action) list \<Rightarrow> action list" where
  "events_of t tr = map snd (filter (\<lambda>p. fst p = t) tr)"

section \<open>Auxiliary notions for the proofs\<close>

text \<open>The actions of the configuration scan.\<close>

definition scan_action :: "action \<Rightarrow> bool" where
  "scan_action a = (case a of OpenFile _ \<Rightarrow> True | LogPrintf _ \<Rightarrow> True | HttpGet _ \<Rightarrow> True | _ \<Rightarrow> False)"

text \<open>The collaborators each goroutine calls.\<close>

definition main_site :: "site \<Rightarrow> bool" where
  "main_site c = (c \<in> set [CfgLoad, NewLogger, DpiAware, NewListener, NewManager, NewScheduler,
     ServerNew, DiscordNew, DiscordRegister, TelegramNew, TelegramRegister])"

definition task_sites :: "tid \<Rightarrow> site \<Rightarrow> bool" where
  "task_sites t c = (case t of
      Main \<Rightarrow> main_site c
    | Gui \<Rightarrow> c \<in> set [GetDisplayScale, WebviewNew, WebviewSetSize, WebviewRun, WebviewDestroy]
    | Discord \<Rightarrow> c = DiscordStart
    | Telegram \<Rightarrow> c = TelegramStart
    | Listen \<Rightarrow> c = SrvListen
    | Events \<Rightarrow> c = EvListen
    | Shutdown \<Rightarrow> c \<in> set [StopAll, SchedStop, SrvStop]
    | Sched \<Rightarrow> c = SchedStart)"

text \<open>The actions that occur in the code of a goroutine other than main, and in the
  code of main.\<close>

definition task_action :: "tid \<Rightarrow> action \<Rightarrow> bool" where
  "task_action t a = (case a of
      Call c \<Rightarrow> task_sites t c
    | Cancel \<Rightarrow> True
    | Return _ \<Rightarrow> t \<noteq> Sched
    | CtxDone \<Rightarrow> t = Shutdown
    | LoggerInfo _ \<Rightarrow> True
    | LoggerError _ _ \<Rightarrow> True
    | Panicked _ \<Rightarrow> True
    | Die \<Rightarrow> True
    | _ \<Rightarrow> False)"

definition main_action :: "action \<Rightarrow> bool" where
  "main_action a = (case a of
      Call c \<Rightarrow> main_site c
    | GoGroup u \<Rightarrow> u \<in> set [Gui, Discord, Telegram, Listen, Events, Shutdown]
    | GoPlain u \<Rightarrow> u = Sched
    | Wait \<Rightarrow> False
    | Return _ \<Rightarrow> False
    | CtxDone \<Rightarrow> False
    | _ \<Rightarrow> True)"

text \<open>What a goroutine has done is the part of its code before its program counter.\<close>

definition local_inv :: "env \<Rightarrow> state \<Rightarrow> bool" where
  "local_inv env s =
     ((\<forall>t. events_of t (trace s) = take (pc s t) (prog env (wres s) t))
      \<and> (wres s = None \<longrightarrow> pc s Main \<le> length (main_body env)))"

text \<open>The state of the group, the cancellation and the process, read off a trace.\<close>

fun group_of :: "(tid \<times> action) list \<Rightarrow> tid list" where
  "group_of [] = []"
| "group_of ((t, GoGroup u) # tr) = u # group_of tr"
| "group_of (_ # tr) = group_of tr"

fun returned_of :: "(tid \<times> action) list \<Rightarrow> tid list" where
  "returned_of [] = []"
| "returned_of ((t, Return r) # tr) = t # returned_of tr"
| "returned_of (_ # tr) = returned_of tr"

fun first_error :: "(tid \<times> action) list \<Rightarrow> (tid \<times> error) option" where
  "first_error [] = None"
| "first_error ((t, Return (Some e)) # tr) = Some (t, e)"
| "first_error (_ # tr) = first_error tr"

fun started_of :: "(tid \<times> action) list \<Rightarrow> tid list" where
  "started_of [] = [Main]"
| "started_of ((t, GoGroup u) # tr) = u # started_of tr"
| "started_of ((t, GoPlain u) # tr) = u # started_of tr"
| "started_of (_ # tr) = started_of tr"

fun is_cancel :: "action \<Rightarrow> bool" where
  "is_cancel Cancel = True"
| "is_cancel Wait = True"
| "is_cancel (Return (Some e)) = True"
| "is_cancel _ = False"

fun final_of :: "(tid \<times> action) list \<Rightarrow> status" where
  "final_of [] = Running"
| "final_of ((t, ExitProc n) # tr) = Exited n"
| "final_of ((t, Die) # tr) = Crashed"
| "final_of (_ # tr) = final_of tr"

definition ghost_inv :: "state \<Rightarrow> bool" where
  "ghost_inv s =
     (grp s = group_of (trace s) \<and> returned s = returned_of (trace s)
      \<and> gerr s = map_option snd (first_error (trace s))
      \<and> (\<forall>t. started s t = (t \<in> set (started_of (trace s))))
      \<and> cancelled s = list_ex (\<lambda>p. is_cancel (snd p)) (trace s)
      \<and> status s = final_of (trace s))"

text \<open>Every element with \<open>Q\<close> has an element with \<open>P\<close> before it; no element with
  \<open>P\<close> comes after an element with \<open>Q\<close>.\<close>

fun preceded :: "('a \<Rightarrow> bool) \<Rightarrow> ('a \<Rightarrow> bool) \<Rightarrow> bool \<Rightarrow> 'a list \<Rightarrow> bool" where
  "preceded P Q seen [] = True"
| "preceded P Q seen (x # xs) = ((if Q x then seen else True) \<and> preceded P Q (seen \<or> P x) xs)"

fun none_after :: "('a \<Rightarrow> bool) \<Rightarrow> ('a \<Rightarrow> bool) \<Rightarrow> 'a list \<Rightarrow> bool" where
  "none_after Q P [] = True"
| "none_after Q P (x # xs) = ((if Q x then \<not> list_ex P xs else True) \<and> none_after Q P xs)"



text \<open>The chat integrations: the construction of the Discord bot failed; the
  construction of the Telegram bot was reached and failed; nothing else went wrong on
  the way of \<open>main\<close> to \<open>g.Wait\<close>; the log entry of the failed construction.\<close>

definition discord_failed :: "env \<Rightarrow> bool" where
  "discord_failed env = (discord_enabled env \<and> ret_err env DiscordNew \<noteq> None)"

definition telegram_failed :: "env \<Rightarrow> bool" where
  "telegram_failed env =
     (\<not> discord_failed env \<and> telegram_enabled env \<and> ret_err env TelegramNew \<noteq> None)"

definition startup_ok :: "env \<Rightarrow> bool" where
  "startup_ok env =
     (list_all (\<lambda>c. faults env c = None)
        [CfgLoad, NewLogger, DpiAware, NewListener, NewManager, NewScheduler,
         ServerNew, DiscordNew, DiscordRegister, TelegramNew, TelegramRegister]
      \<and> ret_err env CfgLoad = None \<and> ret_err env NewLogger = None
      \<and> ret_err env ServerNew = None)"

definition failure_logged :: "env \<Rightarrow> string \<Rightarrow> error \<Rightarrow> bool" where
  "failure_logged env m e =
     (if discord_failed env
      then m = ''Discord could not been initialized'' \<and> ret_err env DiscordNew = Some e
      else m = ''Telegram could not been initialized'' \<and> ret_err env TelegramNew = Some e)"










section \<open>Sample runs\<close>

text \<open>An empty configuration directory, no chat integration, every collaborator
  succeeds.\<close>

definition quiet_env :: env where
  "quiet_env = \<lparr>ret_err = (\<lambda>_. None), faults = (\<lambda>_. None), stack = (\<lambda>_. ''main.main()''),
     webview_nil = False, discord_enabled = False, telegram_enabled = False,
     fs_root = Dir None [], path_sep = ''/'', http_err = (\<lambda>_. None)\<rparr>"

text \<open>The main goroutine sets everything up, the window is closed, the shutdown closure
  runs, the server and the event listener return, and \<open>main\<close> finishes.\<close>

definition quiet_sched :: "tid list" where
  "quiet_sched = replicate 12 Main @ [Sched] @ replicate 7 Gui @ replicate 7 Shutdown
     @ replicate 3 Listen @ replicate 3 Events @ replicate 5 Main"

text \<open>The run up to the moment the window has been closed.\<close>

definition quiet_closed_sched :: "tid list" where
  "quiet_closed_sched = replicate 12 Main @ replicate 7 Gui"

text \<open>The same, except that \<open>scheduler.Start\<close> returns an error.\<close>

definition sched_fail_env :: env where
  "sched_fail_env = quiet_env\<lparr>ret_err := (ret_err quiet_env)(SchedStart := Some ''scheduler failed'')\<rparr>"







text \<open>\<open>gowebview.New\<close> fails and returns a nil \<open>WebView\<close> with its error.\<close>

definition webview_fail_env :: env where
  "webview_fail_env = quiet_env\<lparr>ret_err := (ret_err quiet_env)(WebviewNew := Some ''webview2 not found''),
     webview_nil := True\<rparr>"

definition webview_fail_sched :: "tid list" where
  "webview_fail_sched = replicate 12 Main @ replicate 5 Gui @ replicate 7 Shutdown"

text \<open>\<open>server.New\<close> fails.\<close>

definition server_fail_env :: env where
  "server_fail_env = quiet_env\<lparr>ret_err := (ret_err quiet_env)(ServerNew := Some ''template: parse error'')\<rparr>"

definition server_fail_sched :: "tid list" where
  "server_fail_sched = replicate 10 Main @ [Sched, Main]"

text \<open>Both chat integrations are enabled. In the first environment the Telegram bot
  cannot be constructed, in the second the Discord bot cannot.\<close>

definition telegram_fail_env :: env where
  "telegram_fail_env = quiet_env\<lparr>discord_enabled := True, telegram_enabled := True,
     ret_err := (ret_err quiet_env)(TelegramNew := Some ''unauthorized'')\<rparr>"

definition telegram_fail_sched :: "tid list" where
  "telegram_fail_sched = replicate 9 Main @ [Gui, Gui] @ replicate 3 Main @ [Discord]
     @ replicate 5 Main"

definition discord_fail_env :: env where
  "discord_fail_env = quiet_env\<lparr>discord_enabled := True, telegram_enabled := True,
     ret_err := (ret_err quiet_env)(DiscordNew := Some ''invalid token'')\<rparr>"

definition discord_fail_sched :: "tid list" where
  "discord_fail_sched = replicate 9 Main @ [Gui, Gui] @ replicate 5 Main"







subsection \<open>Static facts\<close>

lemma scan_action_visit: "list_all scan_action (fst (visit env path name node err))"
  by (auto simp: visit_def readConfigFile_def sendMessage_def scan_action_def Let_def
      split: option.splits fsnode.splits sum.splits prod.splits)

lemma scan_action_walk: "list_all scan_action (walk env path name node)"
proof (induction env path name node rule: walk.induct)
  case (3 env path name rerr entries)
  have v: "list_all scan_action (fst (visit env path name (Dir rerr entries) rerr))"
    by (rule scan_action_visit)
  show ?case
  proof (cases "visit env path name (Dir rerr entries) rerr")
    case (Pair acts skip)
    with v have a: "list_all scan_action acts" by simp
    show ?thesis
    proof (cases "rerr \<noteq> None \<or> skip")
      case True
      with Pair a show ?thesis by auto
    next
      case False
      have "list_all scan_action (walk env (path @ path_sep env @ n) n c)"
        if "(n, c) \<in> set entries" for n c
        using "3.IH"[OF Pair[symmetric] refl False that refl] .
      then have "list_all scan_action (concat (map (\<lambda>(n, c). walk env (path @ path_sep env @ n) n c) entries))"
        by (auto simp: list_all_iff)
      with Pair a False show ?thesis by simp
    qed
  qed
qed (simp_all add: scan_action_visit)

lemma scan_action_find: "list_all scan_action (findConfigFiles env)"
  by (simp add: findConfigFiles_def scan_action_walk)

lemma task_action_gcall:
  "task_sites t c \<Longrightarrow> list_all (task_action t) d \<Longrightarrow> list_all (task_action t) k
     \<Longrightarrow> list_all (task_action t) (gcall env c d k)"
  by (simp add: gcall_def task_action_def split: option.splits)

lemma task_action_prog: "t \<noteq> Main \<Longrightarrow> list_all (task_action t) (prog env w t)"
  by (cases t)
     (auto simp: prog_def gui_task_def discord_task_def telegram_task_def listen_task_def
        events_task_def shutdown_task_def sched_task_def deferred_destroy_def
        task_action_def task_sites_def
        intro!: task_action_gcall split: option.splits)

lemma main_action_mcall:
  "main_site c \<Longrightarrow> list_all main_action k \<Longrightarrow> list_all main_action (mcall env c k)"
  by (simp add: mcall_def recover_handler_def main_action_def split: option.splits)

lemma scan_main_action: "scan_action a \<Longrightarrow> main_action a"
  by (cases a) (simp_all add: scan_action_def main_action_def)

lemma main_action_tasks: "list_all main_action main_tasks"
  by (simp add: main_tasks_def main_action_def)

lemma main_action_return: "list_all main_action return_main"
  by (simp add: return_main_def main_action_def)

lemma main_action_telegram: "list_all main_action (main_telegram env)"
  by (auto simp: main_telegram_def main_action_tasks main_action_return main_site_def
      main_action_def intro!: main_action_mcall split: option.splits)

lemma main_action_discord: "list_all main_action (main_discord env)"
  by (auto simp: main_discord_def main_action_telegram main_action_return main_site_def
      main_action_def intro!: main_action_mcall split: option.splits)

lemma main_action_setup: "list_all main_action (main_setup env)"
  by (auto simp: main_setup_def main_action_discord main_site_def main_action_def
      intro!: main_action_mcall split: option.splits)

lemma main_action_body: "list_all main_action (main_body env)"
proof -
  have "list_all main_action (findConfigFiles env)"
    using scan_action_find[of env] by (auto simp: list_all_iff scan_main_action)
  then show ?thesis
    by (simp add: main_body_def main_action_setup main_action_def main_site_def
        split: option.splits)
qed

lemma main_action_after: "list_all main_action (after_wait w)"
  using main_action_return
  by (auto simp: after_wait_def main_action_def split: option.splits)

lemma main_action_prog: "a \<in> set (prog env w Main) \<Longrightarrow> a = Wait \<or> main_action a"
  using main_action_body[of env] main_action_after[of w]
  by (auto simp: prog_def list_all_iff)

subsection \<open>Steps\<close>

lemma effect_pc [simp]: "pc (effect t a s) = pc s"
  by (cases a) (simp_all add: effect_def)

lemma effect_trace [simp]: "trace (effect t a s) = trace s"
  by (cases a) (simp_all add: effect_def)

lemma effect_wres: "wres (effect t a s) = (if a = Wait then Some (gerr s) else wres s)"
  by (cases a) (simp_all add: effect_def)

lemma step_idle: "\<not> can_step env t s \<Longrightarrow> step env t s = s"
  by (simp add: step_def)

lemma step_pc: "can_step env t s \<Longrightarrow> pc (step env t s) = (pc s)(t := Suc (pc s t))"
  by (simp add: step_def Let_def)

lemma step_trace:
  "can_step env t s \<Longrightarrow> trace (step env t s) = trace s @ [(t, prog env (wres s) t ! pc s t)]"
  by (simp add: step_def Let_def)

lemma step_wres:
  "can_step env t s \<Longrightarrow>
     wres (step env t s) = (if prog env (wres s) t ! pc s t = Wait then Some (gerr s) else wres s)"
  by (simp add: step_def Let_def effect_wres)

lemma events_of_append [simp]: "events_of t (xs @ ys) = events_of t xs @ events_of t ys"
  by (simp add: events_of_def)

lemma events_of_Cons [simp]:
  "events_of t ((u, a) # xs) = (if u = t then a # events_of t xs else events_of t xs)"
  by (simp add: events_of_def)

lemma events_of_Nil [simp]: "events_of t [] = []"
  by (simp add: events_of_def)

lemma prog_other: "t \<noteq> Main \<Longrightarrow> prog env w t = prog env w' t"
  by (cases t) (simp_all add: prog_def)

lemma wait_only_main: "prog env w t ! n = Wait \<Longrightarrow> n < length (prog env w t) \<Longrightarrow> t = Main"
  using task_action_prog[of t env w]
  by (cases "t = Main") (auto simp: list_all_length task_action_def)

lemma wait_position:
  assumes "prog env w Main ! n = Wait" "n < length (prog env w Main)"
  shows "n = length (main_body env)"
proof -
  let ?mb = "main_body env"
  have nb: "Wait \<notin> set ?mb"
    using main_action_body[of env] by (auto simp: list_all_iff main_action_def)
  have na: "Wait \<notin> set (after_wait w)"
    using main_action_after[of w] by (auto simp: list_all_iff main_action_def)
  have p: "prog env w Main = ?mb @ Wait # after_wait w" by (simp add: prog_def)
  show ?thesis
  proof (rule ccontr)
    assume ne: "n \<noteq> length ?mb"
    show False
    proof (cases "n < length ?mb")
      case True
      with assms p have "?mb ! n = Wait" by (simp add: nth_append)
      with True nb show False by (metis nth_mem)
    next
      case False
      with ne have gt: "length ?mb < n" by simp
      with assms p have "after_wait w ! (n - length ?mb - 1) = Wait" "n - length ?mb - 1 < length (after_wait w)"
        by (auto simp: nth_append nth_Cons')
      with na show False by (metis nth_mem)
    qed
  qed
qed

lemma local_inv_init: "local_inv env init"
  by (simp add: local_inv_def init_def)

lemma local_inv_step:
  assumes inv: "local_inv env s"
  shows "local_inv env (step env t s)"
proof (cases "can_step env t s")
  case False
  with inv show ?thesis by (simp add: step_idle)
next
  case True
  let ?P = "prog env (wres s) t"
  let ?n = "pc s t"
  let ?a = "?P ! ?n"
  from True have n: "?n < length ?P" by (simp add: can_step_def)
  from inv have ev: "\<And>u. events_of u (trace s) = take (pc s u) (prog env (wres s) u)"
    and wn: "wres s = None \<Longrightarrow> pc s Main \<le> length (main_body env)"
    by (simp_all add: local_inv_def)
  show ?thesis
  proof (cases "?a = Wait")
    case False
    then have w: "wres (step env t s) = wres s" using True by (simp add: step_wres)
    have "events_of u (trace (step env t s)) = take (pc (step env t s) u) (prog env (wres s) u)" for u
      using True n ev[of u] by (simp add: step_trace step_pc take_Suc_conv_app_nth)
    moreover have "pc (step env t s) Main \<le> length (main_body env)" if "wres s = None"
    proof (cases "t = Main")
      case f: False
      with wn[OF that] True show ?thesis by (simp add: step_pc)
    next
      case tm: True
      have "after_wait (wres s) = []" using that by (simp add: after_wait_def)
      then have P: "?P = main_body env @ [Wait]" using tm by (simp add: prog_def)
      with n tm have "?n \<le> length (main_body env)" by simp
      moreover have "?n \<noteq> length (main_body env)" using False P by auto
      ultimately show ?thesis using True tm by (simp add: step_pc)
    qed
    ultimately show ?thesis using w by (simp add: local_inv_def)
  next
    case aw: True
    then have tm: "t = Main" using n by (rule wait_only_main)
    have pos: "?n = length (main_body env)" using aw n tm wait_position by blast
    have w: "wres (step env t s) = Some (gerr s)" using True aw by (simp add: step_wres)
    have "events_of u (trace (step env t s)) = take (pc (step env t s) u) (prog env (Some (gerr s)) u)" for u
    proof (cases "u = Main")
      case False
      then show ?thesis
        using True tm ev[of u] prog_other[of u env "wres s" "Some (gerr s)"]
        by (simp add: step_trace step_pc)
    next
      case um: True
      have "take (pc s Main) (prog env (wres s) Main) = main_body env"
        using pos tm by (simp add: prog_def)
      then show ?thesis
        using True tm um aw ev[of Main] pos by (simp add: step_trace step_pc prog_def)
    qed
    then show ?thesis using w by (simp add: local_inv_def)
  qed
qed

lemma local_inv_exec: "local_inv env s \<Longrightarrow> local_inv env (exec env sched s)"
  by (induction sched arbitrary: s) (simp_all add: local_inv_step)

lemma local_inv_run: "local_inv env (run env sched)"
  by (simp add: run_def local_inv_exec local_inv_init)

lemma events_of_run:
  "events_of t (trace (run env sched)) = take (pc (run env sched) t) (prog env (wres (run env sched)) t)"
  using local_inv_run[of env sched] by (simp add: local_inv_def)

subsection \<open>The state as a function of the trace\<close>

lemma group_of_snoc: "group_of (tr @ [(t, a)]) = group_of tr @ (case a of GoGroup u \<Rightarrow> [u] | _ \<Rightarrow> [])"
  by (induction tr rule: group_of.induct) (auto split: action.splits)

lemma returned_of_snoc:
  "returned_of (tr @ [(t, a)]) = returned_of tr @ (case a of Return r \<Rightarrow> [t] | _ \<Rightarrow> [])"
  by (induction tr rule: returned_of.induct) (auto split: action.splits)

lemma first_error_append:
  "first_error (tr @ tr') = (case first_error tr of None \<Rightarrow> first_error tr' | Some p \<Rightarrow> Some p)"
  by (induction tr rule: first_error.induct) auto

lemma started_of_snoc:
  "set (started_of (tr @ [(t, a)])) =
     set (started_of tr) \<union> (case a of GoGroup u \<Rightarrow> {u} | GoPlain u \<Rightarrow> {u} | _ \<Rightarrow> {})"
  by (induction tr rule: started_of.induct) (auto split: action.splits)

lemma final_of_snoc:
  "final_of (tr @ [(t, a)]) =
     (if final_of tr = Running then (case a of ExitProc n \<Rightarrow> Exited n | Die \<Rightarrow> Crashed | _ \<Rightarrow> Running)
      else final_of tr)"
  by (induction tr rule: final_of.induct) (auto split: action.splits)

lemma first_error_cancel: "first_error tr = Some p \<Longrightarrow> list_ex (\<lambda>p. is_cancel (snd p)) tr"
  by (induction tr rule: first_error.induct) auto

lemma ghost_inv_init: "ghost_inv init"
  by (simp add: ghost_inv_def init_def)

lemma ghost_inv_effect:
  assumes "ghost_inv s" "status s = Running"
  shows "ghost_inv (effect t a (s\<lparr>pc := p, trace := trace s @ [(t, a)]\<rparr>))"
proof (cases a)
  case (Return r)
  with assms show ?thesis
    by (cases r)
       (auto simp: ghost_inv_def effect_def group_of_snoc returned_of_snoc first_error_append
          started_of_snoc final_of_snoc dest: first_error_cancel split: option.splits)
qed (use assms in \<open>auto simp: ghost_inv_def effect_def group_of_snoc returned_of_snoc
       first_error_append started_of_snoc final_of_snoc split: option.splits\<close>)

lemma ghost_inv_step: "ghost_inv s \<Longrightarrow> ghost_inv (step env t s)"
  by (simp add: step_def Let_def can_step_def ghost_inv_effect)

lemma ghost_inv_exec: "ghost_inv s \<Longrightarrow> ghost_inv (exec env sched s)"
  by (induction sched arbitrary: s) (simp_all add: ghost_inv_step)

lemma ghost_inv_run: "ghost_inv (run env sched)"
  by (simp add: run_def ghost_inv_exec ghost_inv_init)

subsection \<open>Runs step by step\<close>

lemma exec_append: "exec env (xs @ ys) s = exec env ys (exec env xs s)"
  by (induction xs arbitrary: s) simp_all

lemma run_snoc: "run env (sched @ [t]) = step env t (run env sched)"
  by (simp add: run_def exec_append)

text \<open>Every action of a trace was taken by a step from the state reached before it.\<close>

lemma trace_split:
  "trace (run env sched) = tr1 @ (t, a) # tr2 \<Longrightarrow>
     \<exists>sched1 sched2. sched = sched1 @ t # sched2 \<and> trace (run env sched1) = tr1
        \<and> can_step env t (run env sched1)
        \<and> a = prog env (wres (run env sched1)) t ! pc (run env sched1) t"
proof (induction sched arbitrary: tr2 rule: rev_induct)
  case Nil
  then show ?case by (simp add: run_def init_def)
next
  case (snoc u sched)
  let ?s = "run env sched"
  show ?case
  proof (cases "can_step env u ?s")
    case False
    with snoc.prems have "trace ?s = tr1 @ (t, a) # tr2" by (simp add: run_snoc step_idle)
    from snoc.IH[OF this] obtain sched1 sched2 where
      "sched = sched1 @ t # sched2" "trace (run env sched1) = tr1" "can_step env t (run env sched1)"
      "a = prog env (wres (run env sched1)) t ! pc (run env sched1) t" by blast
    then show ?thesis
      by (intro exI[of _ sched1] exI[of _ "sched2 @ [u]"]) simp
  next
    case True
    let ?b = "prog env (wres ?s) u ! pc ?s u"
    from True snoc.prems have eq: "trace ?s @ [(u, ?b)] = tr1 @ (t, a) # tr2"
      by (simp add: run_snoc step_trace)
    show ?thesis
    proof (cases tr2 rule: rev_cases)
      case Nil
      with eq have "trace ?s = tr1" "u = t" "a = ?b" by auto
      with True show ?thesis
        by (intro exI[of _ sched] exI[of _ "[]"]) simp
    next
      case (snoc tr2' x)
      with eq have "trace ?s = tr1 @ (t, a) # tr2'" by auto
      from snoc.IH[OF this] obtain sched1 sched2 where
        "sched = sched1 @ t # sched2" "trace (run env sched1) = tr1" "can_step env t (run env sched1)"
        "a = prog env (wres (run env sched1)) t ! pc (run env sched1) t" by blast
      then show ?thesis
        by (intro exI[of _ sched1] exI[of _ "sched2 @ [u]"]) simp
    qed
  qed
qed

subsection \<open>Order within one goroutine\<close>

lemma preceded_take:
  "preceded P Q seen L \<Longrightarrow> take n L = xs @ a # ys \<Longrightarrow> Q a \<Longrightarrow> seen \<or> (\<exists>x\<in>set xs. P x)"
proof (induction L arbitrary: seen n xs)
  case Nil
  then show ?case by simp
next
  case (Cons x L)
  from Cons.prems(2) obtain m where n: "n = Suc m" by (cases n) auto
  show ?case
  proof (cases xs)
    case Nil
    with Cons.prems n show ?thesis by (auto split: if_splits)
  next
    case (Cons x' xs')
    with Cons.prems n have "take m L = xs' @ a # ys" "x' = x" by auto
    from Cons.IH[OF _ this(1) Cons.prems(3), of "seen \<or> P x"] Cons.prems(1) \<open>x' = x\<close> Cons
    show ?thesis by auto
  qed
qed

lemma none_after_take:
  "none_after Q P L \<Longrightarrow> take n L = xs @ a # ys \<Longrightarrow> Q a \<Longrightarrow> \<forall>y\<in>set ys. \<not> P y"
proof (induction L arbitrary: n xs)
  case Nil
  then show ?case by simp
next
  case (Cons x L)
  from Cons.prems(2) obtain m where n: "n = Suc m" by (cases n) auto
  show ?case
  proof (cases xs)
    case Nil
    with Cons.prems n have "ys = take m L" "\<not> list_ex P L" by (auto split: if_splits)
    then show ?thesis by (auto simp: list_ex_iff dest: in_set_takeD)
  next
    case (Cons x' xs')
    with Cons.prems n have "take m L = xs' @ a # ys" by auto
    from Cons.IH[OF _ this Cons.prems(3)] Cons.prems(1) show ?thesis by simp
  qed
qed

lemma set_events_of: "a \<in> set (events_of t tr) \<longleftrightarrow> (t, a) \<in> set tr"
  by (induction tr) (auto split: if_splits)

lemma local_take:
  assumes "trace (run env sched) = tr1 @ (t, a) # tr2"
  shows "take (pc (run env sched) t) (prog env (wres (run env sched)) t)
           = events_of t tr1 @ a # events_of t tr2"
  using events_of_run[of t env sched] assms by simp

lemma in_prog:
  assumes "trace (run env sched) = tr1 @ (t, a) # tr2"
  shows "a \<in> set (prog env (wres (run env sched)) t)"
proof -
  have "a \<in> set (take (pc (run env sched) t) (prog env (wres (run env sched)) t))"
    by (simp add: local_take[OF assms])
  then show ?thesis by (rule in_set_takeD)
qed

subsection \<open>Who calls what\<close>

lemma call_owner: "Call c \<in> set (prog env w t) \<Longrightarrow> task_sites t c"
proof (cases "t = Main")
  case True
  assume "Call c \<in> set (prog env w t)"
  with True main_action_prog[of "Call c" env w] show ?thesis
    by (simp add: main_action_def task_sites_def)
next
  case False
  assume "Call c \<in> set (prog env w t)"
  with task_action_prog[OF False, of env w] show ?thesis
    by (auto simp: list_all_iff task_action_def)
qed

lemma shutdown_sites:
  assumes "Call c \<in> set (prog env w t)" "c \<in> {StopAll, SchedStop, SrvStop}"
  shows "t = Shutdown"
  using call_owner[OF assms(1)] assms(2)
  by (cases t) (auto simp: task_sites_def main_site_def)

lemma go_owner:
  assumes "GoGroup u \<in> set (prog env w t)"
  shows "t = Main \<and> u \<in> {Gui, Discord, Telegram, Listen, Events, Shutdown}"
proof (cases "t = Main")
  case True
  with assms main_action_prog[of "GoGroup u" env w] show ?thesis
    by (simp add: main_action_def)
next
  case False
  with assms task_action_prog[OF False, of env w] show ?thesis
    by (auto simp: list_all_iff task_action_def)
qed

lemma shutdown_stopall_first:
  "preceded (\<lambda>a. a = Call StopAll) (\<lambda>a. a = Call SrvStop) False (shutdown_task env)"
  by (simp add: shutdown_task_def gcall_def split: option.splits)

lemma shutdown_no_stopall_later:
  "none_after (\<lambda>a. a = Call SrvStop) (\<lambda>a. a = Call StopAll) (shutdown_task env)"
  by (simp add: shutdown_task_def gcall_def split: option.splits)

lemma thread_preceded:
  assumes "trace (run env sched) = tr1 @ (t, a) # tr2"
    and "preceded P Q False (prog env (wres (run env sched)) t)" and "Q a"
  shows "\<exists>x. P x \<and> (t, x) \<in> set tr1"
  using preceded_take[OF assms(2) local_take[OF assms(1)] assms(3)]
  by (auto simp: set_events_of)

lemma thread_none_after:
  assumes "trace (run env sched) = tr1 @ (t, a) # tr2"
    and "none_after Q P (prog env (wres (run env sched)) t)" and "Q a"
  shows "\<forall>y. P y \<longrightarrow> (t, y) \<notin> set tr2"
  using none_after_take[OF assms(2) local_take[OF assms(1)] assms(3)]
  by (auto simp: set_events_of)

lemma in_trace_prog:
  assumes "(t, a) \<in> set (trace (run env sched))"
  shows "a \<in> set (prog env (wres (run env sched)) t)"
proof -
  from assms obtain p q where "trace (run env sched) = p @ (t, a) # q" by (meson split_list)
  then show ?thesis by (rule in_prog)
qed

lemma group_of_mem: "u \<in> set (group_of tr) \<longleftrightarrow> (\<exists>t. (t, GoGroup u) \<in> set tr)"
  by (induction tr rule: group_of.induct) auto

lemma group_members:
  assumes "u \<in> set (grp (run env sched))"
  shows "(Main, GoGroup u) \<in> set (trace (run env sched))
         \<and> u \<in> {Gui, Discord, Telegram, Listen, Events, Shutdown}"
proof -
  from assms ghost_inv_run[of env sched] obtain t where
    m: "(t, GoGroup u) \<in> set (trace (run env sched))"
    by (auto simp: ghost_inv_def group_of_mem)
  from go_owner[OF in_trace_prog[OF m]] m show ?thesis by simp
qed

subsection \<open>The scheduler and the shutdown closure\<close>

lemma sched_effect:
  assumes "a \<in> set (sched_task env)"
  shows "cancelled (effect t a s) = cancelled s \<and> gerr (effect t a s) = gerr s
         \<and> wres (effect t a s) = wres s \<and> grp (effect t a s) = grp s
         \<and> returned (effect t a s) = returned s"
  using assms by (auto simp: sched_task_def gcall_def effect_def split: option.splits)

lemma sched_step_silent:
  "cancelled (step env Sched s) = cancelled s \<and> gerr (step env Sched s) = gerr s
   \<and> wres (step env Sched s) = wres s \<and> grp (step env Sched s) = grp s
   \<and> returned (step env Sched s) = returned s"
proof (cases "can_step env Sched s")
  case False
  then show ?thesis by (simp add: step_idle)
next
  case True
  then have "prog env (wres s) Sched ! pc s Sched \<in> set (sched_task env)"
    by (simp add: can_step_def prog_def)
  from sched_effect[OF this] True show ?thesis
    by (simp add: step_def Let_def)
qed

lemma shutdown_sched_after_stopall:
  "preceded (\<lambda>a. a = Call StopAll) (\<lambda>a. a = Call SchedStop) False (shutdown_task env)"
  by (simp add: shutdown_task_def gcall_def split: option.splits)

lemma shutdown_sched_before_stop:
  "preceded (\<lambda>a. a = Call SchedStop) (\<lambda>a. a = Call SrvStop) False (shutdown_task env)"
  by (simp add: shutdown_task_def gcall_def split: option.splits)

lemma shutdown_sched_before_return:
  "preceded (\<lambda>a. a = Call SchedStop) (\<lambda>a. case a of Return r \<Rightarrow> True | _ \<Rightarrow> False) False
     (shutdown_task env)"
  by (simp add: shutdown_task_def gcall_def split: option.splits)

lemma shutdown_no_sched_after_stop:
  "none_after (\<lambda>a. a = Call SrvStop) (\<lambda>a. a = Call SchedStop) (shutdown_task env)"
  by (simp add: shutdown_task_def gcall_def split: option.splits)

subsection \<open>The group\<close>


lemma preceded_append:
  "\<forall>x\<in>set xs. \<not> Q x \<and> \<not> P x \<Longrightarrow> preceded P Q seen (xs @ ys) = preceded P Q seen ys"
  by (induction xs arbitrary: seen) auto



lemma started_of_mem:
  "u \<in> set (started_of tr) \<longleftrightarrow>
     u = Main \<or> (\<exists>t. (t, GoGroup u) \<in> set tr) \<or> (\<exists>t. (t, GoPlain u) \<in> set tr)"
  by (induction tr rule: started_of.induct) auto













subsection \<open>The cancellation\<close>






lemma task_ready:
  assumes "cancelled s" "u \<noteq> Main" "n < length (prog env w u)"
  shows "ready (prog env w u ! n) s"
proof -
  have "task_action u (prog env w u ! n)"
    using task_action_prog[OF assms(2), of env w] assms(3) by (simp add: list_all_length)
  with assms(1) show ?thesis
    by (cases "prog env w u ! n") (simp_all add: ready_def task_action_def)
qed

subsection \<open>The chat integrations\<close>

lemma scan_no_go: "list_all scan_action xs \<Longrightarrow> GoGroup u \<notin> set xs"
  by (auto simp: list_all_iff scan_action_def)

lemma go_telegram_in_telegram:
  "GoGroup Telegram \<in> set (main_telegram env) \<Longrightarrow>
     telegram_enabled env \<and> ret_err env TelegramNew = None"
  by (auto simp: main_telegram_def mcall_def main_tasks_def return_main_def recover_handler_def
      split: if_splits option.splits)

lemma go_discord_in_telegram: "GoGroup Discord \<notin> set (main_telegram env)"
  by (auto simp: main_telegram_def mcall_def main_tasks_def return_main_def recover_handler_def
      split: if_splits option.splits)

lemma go_in_discord:
  "GoGroup Discord \<in> set (main_discord env) \<Longrightarrow>
     discord_enabled env \<and> ret_err env DiscordNew = None"
  "GoGroup Telegram \<in> set (main_discord env) \<Longrightarrow>
     telegram_enabled env \<and> ret_err env TelegramNew = None \<and> \<not> discord_failed env"
  using go_discord_in_telegram[of env] go_telegram_in_telegram[of env]
  by (auto simp: main_discord_def mcall_def return_main_def recover_handler_def discord_failed_def
      split: if_splits option.splits)

lemma go_in_setup:
  assumes "GoGroup u \<in> set (main_setup env)" "u \<noteq> Gui"
  shows "GoGroup u \<in> set (main_discord env)"
  using assms
  by (auto simp: main_setup_def mcall_def recover_handler_def split: if_splits option.splits)

lemma go_in_body:
  assumes "GoGroup u \<in> set (prog env w Main)" "u \<noteq> Gui"
  shows "GoGroup u \<in> set (main_discord env)"
proof -
  have "GoGroup u \<notin> set (after_wait w)"
    by (auto simp: after_wait_def return_main_def split: option.splits)
  with assms(1) have "GoGroup u \<in> set (main_body env)" by (auto simp: prog_def)
  then have "GoGroup u \<in> set (main_setup env)"
    using scan_no_go[OF scan_action_find, of u env]
    by (auto simp: main_body_def split: option.splits)
  from go_in_setup[OF this assms(2)] show ?thesis .
qed

lemma acts_started:
  assumes "(t, a) \<in> set (trace (run env sched))"
  shows "started (run env sched) t"
proof -
  from assms obtain p q where h: "trace (run env sched) = p @ (t, a) # q" by (meson split_list)
  from trace_split[OF h] obtain sched1 where
    s1: "trace (run env sched1) = p" "can_step env t (run env sched1)" by blast
  then have "started (run env sched1) t" by (simp add: can_step_def)
  then have "t \<in> set (started_of p)"
    using ghost_inv_run[of env sched1] s1(1) by (simp add: ghost_inv_def)
  then have "t \<in> set (started_of (trace (run env sched)))"
    using h by (auto simp: started_of_mem)
  then show ?thesis using ghost_inv_run[of env sched] by (simp add: ghost_inv_def)
qed

lemma started_group:
  assumes "started (run env sched) u" "u \<noteq> Main" "u \<noteq> Sched"
  shows "GoGroup u \<in> set (prog env (wres (run env sched)) Main)"
proof -
  let ?s = "run env sched"
  from assms have "u \<in> set (started_of (trace ?s))"
    using ghost_inv_run[of env sched] by (simp add: ghost_inv_def)
  with assms(2) obtain t where
    t: "(t, GoGroup u) \<in> set (trace ?s) \<or> (t, GoPlain u) \<in> set (trace ?s)"
    by (auto simp: started_of_mem)
  have "(t, GoPlain u) \<notin> set (trace ?s)"
  proof
    assume "(t, GoPlain u) \<in> set (trace ?s)"
    from in_trace_prog[OF this] main_action_prog[of "GoPlain u" env "wres ?s"]
      task_action_prog[of t env "wres ?s"] assms(3)
    show False by (cases "t = Main") (auto simp: main_action_def list_all_iff task_action_def)
  qed
  with t have m: "(t, GoGroup u) \<in> set (trace ?s)" by simp
  from go_owner[OF in_trace_prog[OF m]] in_trace_prog[OF m] show ?thesis by simp
qed

lemma never_started:
  assumes "GoGroup u \<notin> set (main_discord env)" "u \<in> {Discord, Telegram}"
  shows "\<not> started (run env sched) u \<and> events_of u (trace (run env sched)) = []"
proof -
  have ns: "\<not> started (run env sched) u"
  proof
    assume "started (run env sched) u"
    from started_group[OF this] assms(2) have "GoGroup u \<in> set (prog env (wres (run env sched)) Main)"
      by auto
    from go_in_body[OF this] assms show False by auto
  qed
  have "events_of u (trace (run env sched)) = []"
  proof (rule ccontr)
    assume "events_of u (trace (run env sched)) \<noteq> []"
    then obtain a where "a \<in> set (events_of u (trace (run env sched)))"
      by (meson last_in_set)
    then have "(u, a) \<in> set (trace (run env sched))" by (simp add: set_events_of)
    from acts_started[OF this] ns show False by simp
  qed
  with ns show ?thesis by simp
qed


lemma final_of_append:
  "final_of (tr @ tr') = (if final_of tr = Running then final_of tr' else final_of tr)"
  by (induction tr rule: final_of.induct) auto

lemma final_of_running:
  "final_of tr = Running \<Longrightarrow> (u, ExitProc n) \<notin> set tr \<and> (u, Die) \<notin> set tr"
  by (induction tr rule: final_of.induct) auto

text \<open>Nothing happens after the process has exited or died.\<close>

lemma running_before:
  assumes "trace (run env sched) = tr1 @ (t, a) # tr2"
  shows "final_of tr1 = Running"
proof -
  from trace_split[OF assms] obtain sched1 where
    s1: "trace (run env sched1) = tr1" "can_step env t (run env sched1)" by blast
  then have "status (run env sched1) = Running" by (simp add: can_step_def)
  then show ?thesis using ghost_inv_run[of env sched1] s1(1) by (simp add: ghost_inv_def)
qed

lemma exit_status:
  assumes "(t, ExitProc n) \<in> set (trace (run env sched))"
  shows "status (run env sched) = Exited n"
proof -
  from assms obtain p q where h: "trace (run env sched) = p @ (t, ExitProc n) # q"
    by (meson split_list)
  from running_before[OF h] h have "final_of (trace (run env sched)) = Exited n"
    by (simp add: final_of_append)
  then show ?thesis using ghost_inv_run[of env sched] by (simp add: ghost_inv_def)
qed

lemma main_events_complete:
  assumes "length (main_body env) \<le> pc (run env sched) Main"
  shows "\<exists>rest. events_of Main (trace (run env sched)) = main_body env @ rest
           \<and> (rest = [] \<or> (\<exists>rest'. rest = Wait # rest' \<and> set rest' \<subseteq> set (after_wait (wres (run env sched)))))"
proof -
  let ?s = "run env sched"
  let ?k = "pc ?s Main - length (main_body env)"
  have e: "events_of Main (trace ?s) = main_body env @ take ?k (Wait # after_wait (wres ?s))"
    using events_of_run[of Main env sched] assms by (simp add: prog_def)
  show ?thesis
  proof (cases ?k)
    case 0
    with e show ?thesis by simp
  next
    case (Suc m)
    with e have "events_of Main (trace ?s) = main_body env @ Wait # take m (after_wait (wres ?s))"
      by simp
    then show ?thesis by (auto dest: in_set_takeD)
  qed
qed

lemma grp_complete:
  assumes "length (main_body env) \<le> pc (run env sched) Main"
  shows "u \<in> set (grp (run env sched)) \<longleftrightarrow> GoGroup u \<in> set (main_body env)"
proof
  let ?s = "run env sched"
  assume "u \<in> set (grp ?s)"
  from group_members[OF this] have "GoGroup u \<in> set (prog env (wres ?s) Main)"
    by (simp add: in_trace_prog)
  then show "GoGroup u \<in> set (main_body env)"
    by (auto simp: prog_def after_wait_def return_main_def split: option.splits)
next
  let ?s = "run env sched"
  assume m: "GoGroup u \<in> set (main_body env)"
  from main_events_complete[OF assms] m have "GoGroup u \<in> set (events_of Main (trace ?s))"
    by auto
  then have "(Main, GoGroup u) \<in> set (trace ?s)" by (simp add: set_events_of)
  then show "u \<in> set (grp ?s)"
    using ghost_inv_run[of env sched] by (auto simp: ghost_inv_def group_of_mem)
qed

lemma main_body_ok:
  "startup_ok env \<Longrightarrow>
     main_body env = [Call CfgLoad, Call NewLogger] @ findConfigFiles env
        @ [Call DpiAware, Call NewListener, Call NewManager, Call NewScheduler,
           GoPlain Sched, Call ServerNew, GoGroup Gui] @ main_discord env"
  by (simp add: startup_ok_def main_body_def main_setup_def mcall_def)

lemma main_telegram_ok:
  "startup_ok env \<Longrightarrow>
     main_telegram env =
       (if telegram_enabled env then
          (case ret_err env TelegramNew of
             Some e \<Rightarrow> [Call TelegramNew, LoggerError ''Telegram could not been initialized'' (Some e)]
                        @ return_main
           | None \<Rightarrow> [Call TelegramNew, Call TelegramRegister, GoGroup Telegram] @ main_tasks)
        else main_tasks)"
  by (simp add: startup_ok_def main_telegram_def mcall_def split: option.splits)

lemma main_discord_ok:
  "startup_ok env \<Longrightarrow>
     main_discord env =
       (if discord_enabled env then
          (case ret_err env DiscordNew of
             Some e \<Rightarrow> [Call DiscordNew, LoggerError ''Discord could not been initialized'' (Some e)]
                        @ return_main
           | None \<Rightarrow> [Call DiscordNew, Call DiscordRegister, GoGroup Discord] @ main_telegram env)
        else main_telegram env)"
  by (simp add: startup_ok_def main_discord_def mcall_def split: option.splits)

lemma go_discord_ok:
  "startup_ok env \<Longrightarrow> discord_enabled env \<Longrightarrow> ret_err env DiscordNew = None
     \<Longrightarrow> GoGroup Discord \<in> set (main_body env)"
  by (simp add: main_body_ok main_discord_ok)

lemma go_telegram_ok:
  "startup_ok env \<Longrightarrow> telegram_enabled env \<Longrightarrow> ret_err env TelegramNew = None
     \<Longrightarrow> \<not> discord_failed env \<Longrightarrow> GoGroup Telegram \<in> set (main_body env)"
  by (auto simp: main_body_ok main_discord_ok main_telegram_ok discord_failed_def
      split: option.splits)

lemma failure_body:
  assumes "startup_ok env" "discord_failed env \<or> telegram_failed env"
  shows "\<exists>pre m e. main_body env = pre @ LoggerError m (Some e) # return_main
           \<and> failure_logged env m e \<and> (\<forall>u. GoGroup u \<in> set pre \<longrightarrow> u = Gui \<or> u = Discord)"
proof (cases "discord_failed env")
  case True
  then obtain e where e: "discord_enabled env" "ret_err env DiscordNew = Some e"
    by (auto simp: discord_failed_def)
  let ?pre = "[Call CfgLoad, Call NewLogger] @ findConfigFiles env
        @ [Call DpiAware, Call NewListener, Call NewManager, Call NewScheduler,
           GoPlain Sched, Call ServerNew, GoGroup Gui, Call DiscordNew]"
  have "main_body env = ?pre @ LoggerError ''Discord could not been initialized'' (Some e) # return_main"
    using assms(1) e by (simp add: main_body_ok main_discord_ok)
  moreover have "failure_logged env ''Discord could not been initialized'' e"
    using True e by (simp add: failure_logged_def)
  moreover have "\<forall>u. GoGroup u \<in> set ?pre \<longrightarrow> u = Gui \<or> u = Discord"
    using scan_no_go[OF scan_action_find, of _ env] by auto
  ultimately show ?thesis by blast
next
  case False
  with assms(2) obtain e where e: "telegram_enabled env" "ret_err env TelegramNew = Some e"
    by (auto simp: telegram_failed_def)
  let ?pre = "[Call CfgLoad, Call NewLogger] @ findConfigFiles env
        @ [Call DpiAware, Call NewListener, Call NewManager, Call NewScheduler,
           GoPlain Sched, Call ServerNew, GoGroup Gui]
        @ (if discord_enabled env then [Call DiscordNew, Call DiscordRegister, GoGroup Discord] else [])
        @ [Call TelegramNew]"
  have "main_body env = ?pre @ LoggerError ''Telegram could not been initialized'' (Some e) # return_main"
    using assms(1) e False
    by (auto simp: main_body_ok main_discord_ok main_telegram_ok discord_failed_def
        split: option.splits)
  moreover have "failure_logged env ''Telegram could not been initialized'' e"
    using False e by (simp add: failure_logged_def)
  moreover have "\<forall>u. GoGroup u \<in> set ?pre \<longrightarrow> u = Gui \<or> u = Discord"
    using scan_no_go[OF scan_action_find, of _ env] by auto
  ultimately show ?thesis by blast
qed


lemma takeWhile_until: "x \<notin> set xs \<Longrightarrow> takeWhile (\<lambda>a. a \<noteq> x) (xs @ x # ys) = xs"
  by (induction xs) auto

lemma main_exit_complete:
  assumes mb: "main_body env = pre @ [ExitProc n]"
    and c: "length (main_body env) \<le> pc (run env sched) Main"
  shows "events_of Main (trace (run env sched)) = main_body env"
    and "(Main, Wait) \<notin> set (trace (run env sched))"
    and "status (run env sched) = Exited n"
proof -
  let ?s = "run env sched"
  from main_events_complete[OF c] obtain rest where
    r: "events_of Main (trace ?s) = main_body env @ rest" by blast
  have nw: "Wait \<notin> set (main_body env)"
    using main_action_body[of env] by (auto simp: list_all_iff main_action_def)
  show w: "(Main, Wait) \<notin> set (trace ?s)"
  proof
    assume "(Main, Wait) \<in> set (trace ?s)"
    then obtain tr1 tr2 where h: "trace ?s = tr1 @ (Main, Wait) # tr2" "(Main, Wait) \<notin> set tr1"
      by (meson split_list_first)
    then have "Wait \<notin> set (events_of Main tr1)" by (simp add: set_events_of)
    then have "takeWhile (\<lambda>a. a \<noteq> Wait) (events_of Main (trace ?s)) = events_of Main tr1"
      using h(1) by (simp add: takeWhile_until)
    moreover have "Wait \<in> set rest" using r h(1) nw
      by (metis Un_iff events_of_Cons events_of_append list.set_intros(1) set_append)
    then obtain r1 r2 where "rest = r1 @ Wait # r2" "Wait \<notin> set r1" by (meson split_list_first)
    then have "takeWhile (\<lambda>a. a \<noteq> Wait) (events_of Main (trace ?s)) = main_body env @ r1"
      using r nw takeWhile_until[of Wait "main_body env @ r1" r2] by simp
    ultimately have "events_of Main tr1 = pre @ ExitProc n # r1" using mb by simp
    then have "ExitProc n \<in> set (events_of Main tr1)" by simp
    then have "(Main, ExitProc n) \<in> set tr1" by (simp add: set_events_of)
    with running_before[OF h(1)] final_of_running[of tr1 Main n] show False by simp
  qed
  from main_events_complete[OF c] r w show "events_of Main (trace ?s) = main_body env"
    by (auto simp: set_events_of[symmetric])
  then have "(Main, ExitProc n) \<in> set (trace ?s)"
    using mb by (simp add: set_events_of[symmetric])
  then show "status ?s = Exited n" by (rule exit_status)
qed

subsection \<open>The panic barrier\<close>

























subsection \<open>The configuration scan\<close>





















subsection \<open>The webview closure when construction fails\<close>

text \<open>With a usable handle, \<open>Destroy\<close> is called, then the deferred \<open>cancel\<close> runs and the
  wrapped error is returned.\<close>

lemma destroy_before_error:
  assumes "ret_err env WebviewNew = Some e" "\<not> webview_nil env"
    and "faults env GetDisplayScale = None" "faults env WebviewNew = None"
    and "faults env WebviewDestroy = None"
  shows "gui_task env = [Call GetDisplayScale, Call WebviewNew, Call WebviewDestroy, Cancel,
           Return (Some (''error creating webview: '' @ e))]"
  using assms by (simp add: gui_task_def gcall_def)

subsection \<open>The sample runs, evaluated\<close>

lemma quiet_trace:
  "trace (run quiet_env quiet_sched) =
    [(Main, Call CfgLoad), (Main, Call NewLogger), (Main, Call DpiAware),
     (Main, Call NewListener), (Main, Call NewManager), (Main, Call NewScheduler),
     (Main, GoPlain Sched), (Main, Call ServerNew), (Main, GoGroup Gui),
     (Main, GoGroup Listen), (Main, GoGroup Events), (Main, GoGroup Shutdown),
     (Sched, Call SchedStart),
     (Gui, Call GetDisplayScale), (Gui, Call WebviewNew), (Gui, Call WebviewSetSize),
     (Gui, Call WebviewRun), (Gui, Call WebviewDestroy), (Gui, Cancel), (Gui, Return None),
     (Shutdown, CtxDone), (Shutdown, LoggerInfo ''Koolo shutting down...''),
     (Shutdown, Cancel), (Shutdown, Call StopAll), (Shutdown, Call SchedStop),
     (Shutdown, Call SrvStop), (Shutdown, Return None),
     (Listen, Call SrvListen), (Listen, Cancel), (Listen, Return None),
     (Events, Call EvListen), (Events, Cancel), (Events, Return None),
     (Main, Wait), (Main, FlushLog), (Main, Cancel), (Main, FlushLog), (Main, ExitProc 0)]"
  by code_simp

lemma sched_fail_trace:
  "trace (run sched_fail_env quiet_sched) =
    [(Main, Call CfgLoad), (Main, Call NewLogger), (Main, Call DpiAware),
     (Main, Call NewListener), (Main, Call NewManager), (Main, Call NewScheduler),
     (Main, GoPlain Sched), (Main, Call ServerNew), (Main, GoGroup Gui),
     (Main, GoGroup Listen), (Main, GoGroup Events), (Main, GoGroup Shutdown),
     (Sched, Call SchedStart),
     (Gui, Call GetDisplayScale), (Gui, Call WebviewNew), (Gui, Call WebviewSetSize),
     (Gui, Call WebviewRun), (Gui, Call WebviewDestroy), (Gui, Cancel), (Gui, Return None),
     (Shutdown, CtxDone), (Shutdown, LoggerInfo ''Koolo shutting down...''),
     (Shutdown, Cancel), (Shutdown, Call StopAll), (Shutdown, Call SchedStop),
     (Shutdown, Call SrvStop), (Shutdown, Return None),
     (Listen, Call SrvListen), (Listen, Cancel), (Listen, Return None),
     (Events, Call EvListen), (Events, Cancel), (Events, Return None),
     (Main, Wait), (Main, FlushLog), (Main, Cancel), (Main, FlushLog), (Main, ExitProc 0)]"
  by code_simp








lemma quiet_closed_state:
  "cancelled (run quiet_env quiet_closed_sched)"
  "status (run quiet_env quiet_closed_sched) = Running"
  "started (run quiet_env quiet_closed_sched) Shutdown"
  "pc (run quiet_env quiet_closed_sched) Shutdown
     < length (prog quiet_env (wres (run quiet_env quiet_closed_sched)) Shutdown)"
  by code_simp+

lemma telegram_fail_state:
  "startup_ok telegram_fail_env"
  "length (main_body telegram_fail_env) \<le> pc (run telegram_fail_env telegram_fail_sched) Main"
  "telegram_failed telegram_fail_env"
  "\<not> discord_failed telegram_fail_env"
  "discord_enabled telegram_fail_env \<and> ret_err telegram_fail_env DiscordNew = None"
  by code_simp+

lemma discord_fail_state:
  "startup_ok discord_fail_env"
  "length (main_body discord_fail_env) \<le> pc (run discord_fail_env discord_fail_sched) Main"
  "discord_failed discord_fail_env"
  "telegram_enabled discord_fail_env \<and> ret_err discord_fail_env TelegramNew = None"
  by code_simp+









section \<open>The configuration scan\<close>



section \<open>The panic barrier\<close>




section \<open>Flushing the log on exit\<close>

text \<open>
  Claim C3 says that the log is flushed on every exit reached after the logger has been
  constructed, the failure of \<open>server.New\<close> included. On that path the logger has been
  constructed and \<open>FlushLog\<close> has been deferred, but \<open>log.Fatalf\<close> exits the process
  with code 1 without running deferred calls: the process exits and the log has never
  been flushed.
\<close>

theorem server_failure_not_flushed:
  "trace (run server_fail_env server_fail_sched)
     = [(Main, Call CfgLoad), (Main, Call NewLogger), (Main, Call DpiAware),
        (Main, Call NewListener), (Main, Call NewManager), (Main, Call NewScheduler),
        (Main, GoPlain Sched), (Main, Call ServerNew),
        (Main, LogFatalf ''Error starting local server: template: parse error''),
        (Main, ExitProc 1)]
   \<and> status (run server_fail_env server_fail_sched) = Exited 1
   \<and> (Main, FlushLog) \<notin> set (trace (run server_fail_env server_fail_sched))"
  by code_simp

section \<open>The order of the shutdown\<close>

text \<open>
  Claim C4. In every run, whatever led to the cancellation (the window closed, a closure
  returned an error, \<open>cancel\<close> was called), a call of the server's \<open>Stop\<close> is made by the
  shutdown closure only, the manager's \<open>StopAll\<close> has been called by that closure before
  it, and no call of \<open>StopAll\<close> follows it: the reverse order never occurs. Once the
  context is cancelled, the shutdown closure can take each of its steps as long as the
  process runs.
\<close>

theorem shutdown_order:
  "(\<forall>tr1 tr2 t. trace (run env sched) = tr1 @ (t, Call SrvStop) # tr2 \<longrightarrow>
       t = Shutdown \<and> (Shutdown, Call StopAll) \<in> set tr1
       \<and> (\<forall>u. (u, Call StopAll) \<notin> set tr2))
   \<and> (cancelled (run env sched) \<and> status (run env sched) = Running
        \<and> started (run env sched) Shutdown
        \<and> pc (run env sched) Shutdown < length (shutdown_task env)
      \<longrightarrow> can_step env Shutdown (run env sched))"
proof -
  let ?s = "run env sched"
  have a: "t = Shutdown \<and> (Shutdown, Call StopAll) \<in> set tr1 \<and> (\<forall>u. (u, Call StopAll) \<notin> set tr2)"
    if h: "trace ?s = tr1 @ (t, Call SrvStop) # tr2" for tr1 tr2 t
  proof -
    have t: "t = Shutdown"
      using in_prog[OF h] shutdown_sites by blast
    have tk: "take (pc ?s Shutdown) (shutdown_task env)
                = events_of Shutdown tr1 @ Call SrvStop # events_of Shutdown tr2"
      using local_take[OF h] t by (simp add: prog_def)
    have "\<exists>x\<in>set (events_of Shutdown tr1). x = Call StopAll"
      using preceded_take[OF shutdown_stopall_first tk] by simp
    then have before: "(Shutdown, Call StopAll) \<in> set tr1" by (simp add: set_events_of)
    have later: "\<forall>y\<in>set (events_of Shutdown tr2). y \<noteq> Call StopAll"
      using none_after_take[OF shutdown_no_stopall_later tk] by simp
    have "(u, Call StopAll) \<notin> set tr2" for u
    proof
      assume m: "(u, Call StopAll) \<in> set tr2"
      then obtain p q where "tr2 = p @ (u, Call StopAll) # q" by (meson split_list)
      with h have "trace ?s = (tr1 @ (t, Call SrvStop) # p) @ (u, Call StopAll) # q"
        by simp
      from in_prog[OF this] have "u = Shutdown" using shutdown_sites by blast
      with m later show False by (auto simp: set_events_of)
    qed
    with t before show ?thesis by simp
  qed
  have b: "can_step env Shutdown ?s"
    if h: "cancelled ?s \<and> status ?s = Running \<and> started ?s Shutdown
        \<and> pc ?s Shutdown < length (shutdown_task env)"
  proof -
    have "ready (prog env (wres ?s) Shutdown ! pc ?s Shutdown) ?s"
      using task_ready[of ?s Shutdown "pc ?s Shutdown" env "wres ?s"] h by (simp add: prog_def)
    with h show ?thesis by (simp add: can_step_def prog_def)
  qed
  from a b show ?thesis by blast
qed

theorem shutdown_order_witness:
  "(Shutdown, Call StopAll) \<in> set (take 25 (trace (run quiet_env quiet_sched)))
   \<and> (\<forall>u. (u, Call StopAll) \<notin> set (drop 26 (trace (run quiet_env quiet_sched))))
   \<and> can_step quiet_env Shutdown (run quiet_env quiet_closed_sched)"
proof -
  have h: "trace (run quiet_env quiet_sched)
     = take 25 (trace (run quiet_env quiet_sched)) @ (Shutdown, Call SrvStop)
         # drop 26 (trace (run quiet_env quiet_sched))"
    by (simp add: quiet_trace)
  have g: "cancelled (run quiet_env quiet_closed_sched)
      \<and> status (run quiet_env quiet_closed_sched) = Running
      \<and> started (run quiet_env quiet_closed_sched) Shutdown
      \<and> pc (run quiet_env quiet_closed_sched) Shutdown < length (shutdown_task quiet_env)"
    using quiet_closed_state by (simp add: prog_def)
  from shutdown_order[of quiet_env quiet_sched] h
  have 1: "(Shutdown, Call StopAll) \<in> set (take 25 (trace (run quiet_env quiet_sched)))"
    "\<forall>u. (u, Call StopAll) \<notin> set (drop 26 (trace (run quiet_env quiet_sched)))"
    by blast+
  from shutdown_order[of quiet_env quiet_closed_sched] g
  have 2: "can_step quiet_env Shutdown (run quiet_env quiet_closed_sched)" by blast
  from 1 2 show ?thesis by simp
qed

section \<open>The chat integrations\<close>

text \<open>
  Claim C5. Suppose nothing else goes wrong on the way of \<open>main\<close> to \<open>g.Wait\<close> (no
  panic, and configuration, logger and server are set up), and \<open>main\<close> has run to the
  end of its registrations or to its return. Then the Discord closure is in the group
  exactly when Discord is enabled and its bot was constructed, and the Telegram closure
  exactly when Telegram is enabled, its construction was reached (Discord did not fail
  before) and succeeded. When a construction fails, the closure of that integration is
  never started in any run, nor is a later one; \<open>main\<close> logs the error and does nothing
  after it but return (the deferred \<open>cancel\<close> and \<open>FlushLog\<close>, exit code 0), so nothing
  is handed to the group after the failure, \<open>g.Wait\<close> is never called, and the
  process exits with code 0.
\<close>

theorem integrations_registered:
  assumes "startup_ok env" and "length (main_body env) \<le> pc (run env sched) Main"
  shows "(Discord \<in> set (grp (run env sched)) \<longleftrightarrow>
            discord_enabled env \<and> ret_err env DiscordNew = None)
       \<and> (Telegram \<in> set (grp (run env sched)) \<longleftrightarrow>
            telegram_enabled env \<and> ret_err env TelegramNew = None \<and> \<not> discord_failed env)
       \<and> (\<forall>any. discord_failed env \<longrightarrow>
            \<not> started (run env any) Discord \<and> events_of Discord (trace (run env any)) = []
            \<and> \<not> started (run env any) Telegram)
       \<and> (\<forall>any. telegram_failed env \<longrightarrow>
            \<not> started (run env any) Telegram \<and> events_of Telegram (trace (run env any)) = [])
       \<and> (discord_failed env \<or> telegram_failed env \<longrightarrow>
            (\<exists>pre m e. events_of Main (trace (run env sched))
                          = pre @ LoggerError m (Some e) # return_main
               \<and> failure_logged env m e
               \<and> (\<forall>u. GoGroup u \<in> set pre \<longrightarrow> u = Gui \<or> u = Discord))
            \<and> (Main, Wait) \<notin> set (trace (run env sched))
            \<and> status (run env sched) = Exited 0)"
proof (intro conjI allI impI)
  let ?s = "run env sched"
  show "Discord \<in> set (grp ?s) \<longleftrightarrow> discord_enabled env \<and> ret_err env DiscordNew = None"
  proof
    assume "Discord \<in> set (grp ?s)"
    then have "GoGroup Discord \<in> set (main_body env)" by (simp add: grp_complete[OF assms(2)])
    then have "GoGroup Discord \<in> set (prog env None Main)" by (simp add: prog_def)
    from go_in_discord(1)[OF go_in_body[OF this]]
    show "discord_enabled env \<and> ret_err env DiscordNew = None" by simp
  next
    assume "discord_enabled env \<and> ret_err env DiscordNew = None"
    then show "Discord \<in> set (grp ?s)"
      using go_discord_ok[OF assms(1)] by (simp add: grp_complete[OF assms(2)])
  qed
  show "Telegram \<in> set (grp ?s) \<longleftrightarrow>
          telegram_enabled env \<and> ret_err env TelegramNew = None \<and> \<not> discord_failed env"
  proof
    assume "Telegram \<in> set (grp ?s)"
    then have "GoGroup Telegram \<in> set (main_body env)" by (simp add: grp_complete[OF assms(2)])
    then have "GoGroup Telegram \<in> set (prog env None Main)" by (simp add: prog_def)
    from go_in_discord(2)[OF go_in_body[OF this]]
    show "telegram_enabled env \<and> ret_err env TelegramNew = None \<and> \<not> discord_failed env" by simp
  next
    assume "telegram_enabled env \<and> ret_err env TelegramNew = None \<and> \<not> discord_failed env"
    then show "Telegram \<in> set (grp ?s)"
      using go_telegram_ok[OF assms(1)] by (simp add: grp_complete[OF assms(2)])
  qed
next
  fix any assume f: "discord_failed env"
  then have "GoGroup Discord \<notin> set (main_discord env)"
    using go_in_discord(1)[of env] by (auto simp: discord_failed_def)
  from never_started[OF this, of any]
  show "\<not> started (run env any) Discord" "events_of Discord (trace (run env any)) = []"
    by simp_all
  from f have "GoGroup Telegram \<notin> set (main_discord env)"
    using go_in_discord(2)[of env] by auto
  from never_started[OF this, of any] show "\<not> started (run env any) Telegram" by simp
next
  fix any assume f: "telegram_failed env"
  then have "GoGroup Telegram \<notin> set (main_discord env)"
    using go_in_discord(2)[of env] by (auto simp: telegram_failed_def)
  from never_started[OF this, of any]
  show "\<not> started (run env any) Telegram" "events_of Telegram (trace (run env any)) = []"
    by simp_all
next
  assume f: "discord_failed env \<or> telegram_failed env"
  from failure_body[OF assms(1) f] obtain pre m e where
    b: "main_body env = pre @ LoggerError m (Some e) # return_main" "failure_logged env m e"
       "\<forall>u. GoGroup u \<in> set pre \<longrightarrow> u = Gui \<or> u = Discord" by blast
  then have mb: "main_body env = (pre @ [LoggerError m (Some e), Cancel, FlushLog]) @ [ExitProc 0]"
    by (simp add: return_main_def)
  from main_exit_complete[OF mb assms(2)] b
  show "\<exists>pre m e. events_of Main (trace (run env sched)) = pre @ LoggerError m (Some e) # return_main
               \<and> failure_logged env m e
               \<and> (\<forall>u. GoGroup u \<in> set pre \<longrightarrow> u = Gui \<or> u = Discord)"
    and "(Main, Wait) \<notin> set (trace (run env sched))" and "status (run env sched) = Exited 0"
    by auto
qed

theorem integrations_registered_witness:
  "Discord \<in> set (grp (run telegram_fail_env telegram_fail_sched))
   \<and> Telegram \<notin> set (grp (run telegram_fail_env telegram_fail_sched))
   \<and> \<not> started (run telegram_fail_env telegram_fail_sched) Telegram
   \<and> status (run telegram_fail_env telegram_fail_sched) = Exited 0
   \<and> Discord \<notin> set (grp (run discord_fail_env discord_fail_sched))
   \<and> Telegram \<notin> set (grp (run discord_fail_env discord_fail_sched))
   \<and> (Main, Wait) \<notin> set (trace (run discord_fail_env discord_fail_sched))"
proof -
  note a = integrations_registered[OF telegram_fail_state(1,2)]
  note b = integrations_registered[OF discord_fail_state(1,2)]
  have t: "ret_err telegram_fail_env TelegramNew \<noteq> None"
    using telegram_fail_state(3) by (simp add: telegram_failed_def)
  have d: "ret_err discord_fail_env DiscordNew \<noteq> None"
    using discord_fail_state(3) by (simp add: discord_failed_def)
  from a telegram_fail_state(3,4,5) t
  have 1: "Discord \<in> set (grp (run telegram_fail_env telegram_fail_sched))"
    "Telegram \<notin> set (grp (run telegram_fail_env telegram_fail_sched))"
    "\<not> started (run telegram_fail_env telegram_fail_sched) Telegram"
    "status (run telegram_fail_env telegram_fail_sched) = Exited 0"
    by blast+
  from b discord_fail_state(3,4) d
  have 2: "Discord \<notin> set (grp (run discord_fail_env discord_fail_sched))"
    "Telegram \<notin> set (grp (run discord_fail_env discord_fail_sched))"
    "(Main, Wait) \<notin> set (trace (run discord_fail_env discord_fail_sched))"
    by blast+
  from 1 2 show ?thesis by simp
qed

section \<open>The result of the group\<close>



section \<open>A failing stop of the server\<close>



section \<open>Closing the window\<close>




section \<open>A webview that could not be created\<close>

text \<open>
  Claim C9 says that the call of \<open>Destroy\<close> on the branch where \<open>gowebview.New\<close>
  returned an error never faults. Line 147 makes that call on the \<open>WebView\<close> returned
  with the error, and when that value is nil the call panics: the closure runs its
  deferred \<open>cancel\<close> and the process dies, the error is never returned to the group, and
  neither the recovery function of \<open>main\<close> nor \<open>FlushLog\<close> runs.
\<close>

theorem destroy_on_nil_webview:
  "gui_task webview_fail_env
     = [Call GetDisplayScale, Call WebviewNew, Panicked nil_deref, Cancel, Die]
   \<and> events_of Gui (trace (run webview_fail_env webview_fail_sched))
     = [Call GetDisplayScale, Call WebviewNew, Panicked nil_deref, Cancel, Die]
   \<and> status (run webview_fail_env webview_fail_sched) = Crashed
   \<and> returned (run webview_fail_env webview_fail_sched) = []
   \<and> (Main, FlushLog) \<notin> set (trace (run webview_fail_env webview_fail_sched))"
  by code_simp

section \<open>The scheduler\<close>

text \<open>
  Claim C10. \<open>scheduler.Start\<close> runs in a goroutine of its own that is not handed to
  the group. Whatever it returns and whether or not it panics, a step of that goroutine
  changes neither the cancellation nor the first error of the group nor the result of
  \<open>g.Wait\<close>, and the scheduler is never a member of the group. In every run a call of
  \<open>scheduler.Stop\<close> is made by the shutdown closure, after its call of \<open>StopAll\<close> and
  with no call of the server's \<open>Stop\<close> before it; and whenever the shutdown closure has
  called the server's \<open>Stop\<close>, or has returned, it has called \<open>scheduler.Stop\<close> before.
\<close>

theorem scheduler_outside_group:
  "(cancelled (step env Sched s) = cancelled s \<and> gerr (step env Sched s) = gerr s
      \<and> wres (step env Sched s) = wres s)
   \<and> Sched \<notin> set (grp (run env sched))
   \<and> (\<forall>tr1 tr2 t. trace (run env sched) = tr1 @ (t, Call SchedStop) # tr2 \<longrightarrow>
         t = Shutdown \<and> (Shutdown, Call StopAll) \<in> set tr1
         \<and> (\<forall>u. (u, Call SrvStop) \<notin> set tr1))
   \<and> (\<forall>tr1 tr2 t. trace (run env sched) = tr1 @ (t, Call SrvStop) # tr2 \<longrightarrow>
         (Shutdown, Call SchedStop) \<in> set tr1)
   \<and> (\<forall>tr1 tr2 r. trace (run env sched) = tr1 @ (Shutdown, Return r) # tr2 \<longrightarrow>
         (Shutdown, Call SchedStop) \<in> set tr1)"
proof -
  let ?s = "run env sched"
  have a: "cancelled (step env Sched s) = cancelled s \<and> gerr (step env Sched s) = gerr s
      \<and> wres (step env Sched s) = wres s"
    using sched_step_silent[of env s] by simp
  have b: "Sched \<notin> set (grp ?s)"
    using group_members[of Sched env sched] by auto
  have c: "t = Shutdown \<and> (Shutdown, Call StopAll) \<in> set tr1 \<and> (\<forall>u. (u, Call SrvStop) \<notin> set tr1)"
    if h: "trace ?s = tr1 @ (t, Call SchedStop) # tr2" for tr1 tr2 t
  proof -
    have t: "t = Shutdown" using in_prog[OF h] shutdown_sites by blast
    have "\<exists>x. x = Call StopAll \<and> (t, x) \<in> set tr1"
      using thread_preceded[OF h, of "\<lambda>a. a = Call StopAll" "\<lambda>a. a = Call SchedStop"]
        shutdown_sched_after_stopall[of env] t by (simp add: prog_def)
    then have before: "(Shutdown, Call StopAll) \<in> set tr1" using t by simp
    have "(u, Call SrvStop) \<notin> set tr1" for u
    proof
      assume "(u, Call SrvStop) \<in> set tr1"
      then obtain p q where pq: "tr1 = p @ (u, Call SrvStop) # q" by (meson split_list)
      with h have h': "trace ?s = p @ (u, Call SrvStop) # (q @ (t, Call SchedStop) # tr2)" by simp
      have u: "u = Shutdown" using in_prog[OF h'] shutdown_sites by blast
      have "\<forall>y. y = Call SchedStop \<longrightarrow> (u, y) \<notin> set (q @ (t, Call SchedStop) # tr2)"
        using thread_none_after[OF h', of "\<lambda>a. a = Call SrvStop" "\<lambda>a. a = Call SchedStop"]
          shutdown_no_sched_after_stop[of env] u by (simp add: prog_def)
      with u t show False by simp
    qed
    with t before show ?thesis by simp
  qed
  have d: "(Shutdown, Call SchedStop) \<in> set tr1"
    if h: "trace ?s = tr1 @ (t, Call SrvStop) # tr2" for tr1 tr2 t
  proof -
    have t: "t = Shutdown" using in_prog[OF h] shutdown_sites by blast
    have "\<exists>x. x = Call SchedStop \<and> (t, x) \<in> set tr1"
      using thread_preceded[OF h, of "\<lambda>a. a = Call SchedStop" "\<lambda>a. a = Call SrvStop"]
        shutdown_sched_before_stop[of env] t by (simp add: prog_def)
    with t show ?thesis by simp
  qed
  have e: "(Shutdown, Call SchedStop) \<in> set tr1"
    if h: "trace ?s = tr1 @ (Shutdown, Return r) # tr2" for tr1 tr2 r
  proof -
    have "\<exists>x. x = Call SchedStop \<and> (Shutdown, x) \<in> set tr1"
      using thread_preceded[OF h, of "\<lambda>a. a = Call SchedStop" "\<lambda>a. case a of Return r \<Rightarrow> True | _ \<Rightarrow> False"]
        shutdown_sched_before_return[of env] by (simp add: prog_def)
    then show ?thesis by simp
  qed
  from a b c d e show ?thesis by blast
qed

theorem scheduler_outside_group_witness:
  "ret_err sched_fail_env SchedStart = Some ''scheduler failed''
   \<and> gerr (step sched_fail_env Sched (run sched_fail_env (replicate 12 Main)))
       = gerr (run sched_fail_env (replicate 12 Main))
   \<and> cancelled (step sched_fail_env Sched (run sched_fail_env (replicate 12 Main)))
       = cancelled (run sched_fail_env (replicate 12 Main))
   \<and> Sched \<notin> set (grp (run sched_fail_env quiet_sched))
   \<and> (Shutdown, Call StopAll) \<in> set (take 24 (trace (run sched_fail_env quiet_sched)))
   \<and> (Shutdown, Call SchedStop) \<in> set (take 25 (trace (run sched_fail_env quiet_sched)))
   \<and> (Shutdown, Call SchedStop) \<in> set (take 26 (trace (run sched_fail_env quiet_sched)))"
proof -
  let ?T = "trace (run sched_fail_env quiet_sched)"
  have e: "ret_err sched_fail_env SchedStart = Some ''scheduler failed''"
    by (simp add: sched_fail_env_def)
  have h1: "?T = take 24 ?T @ (Shutdown, Call SchedStop) # drop 25 ?T"
    by (simp add: sched_fail_trace)
  have h2: "?T = take 25 ?T @ (Shutdown, Call SrvStop) # drop 26 ?T"
    by (simp add: sched_fail_trace)
  have h3: "?T = take 26 ?T @ (Shutdown, Return None) # drop 27 ?T"
    by (simp add: sched_fail_trace)
  from scheduler_outside_group[of sched_fail_env "run sched_fail_env (replicate 12 Main)" quiet_sched]
    e h1 h2 h3
  show ?thesis by blast
qed

end
